theory Spec2Isabelle
  imports Complex_Main "HOL-Library.Stream"
begin

section \<open>The sliding-window rate limiter of \<^verbatim>\<open>src/task1.py\<close>\<close>

text \<open>
  The class \<^verbatim>\<open>SlidingWindowRateLimiter\<close> keeps, for every user id, a deque of the
  times at which a message of that user was accepted. The embedding follows the class
  method by method.

  \<^item> A timestamp is a Python float read from \<^verbatim>\<open>time.time()\<close>; it is modelled as a
    \<open>real\<close>, so the comparisons and the subtraction \<^verbatim>\<open>current_time - self.window_size\<close>
    are the exact ones (rounding of binary floating point is not modelled).
  \<^item> \<^verbatim>\<open>window_size\<close> and \<^verbatim>\<open>max_requests\<close> are annotated \<^verbatim>\<open>int\<close>: unbounded integers.
  \<^item> \<^verbatim>\<open>user_history: Dict[str, deque]\<close> is a map from strings to lists, the head of
    the list being the left end of the deque (\<^verbatim>\<open>popleft\<close> removes the head,
    \<^verbatim>\<open>append\<close> adds at the end, \<^verbatim>\<open>d[0]\<close> reads the head).
  \<^item> The methods mutate \<^verbatim>\<open>self\<close>: every method takes the limiter and returns the
    updated one.
  \<^item> \<^verbatim>\<open>time.time()\<close> is an effect: the clock is the stream of the values that the
    successive calls of \<^verbatim>\<open>time.time()\<close> will return, and every method that reads the
    clock returns the rest of the stream.
\<close>

subsection \<open>Data\<close>

datatype py_error = ValueError | KeyError | IndexError

record limiter =
  window_size :: int
  max_requests :: int
  user_history :: "string \<rightharpoonup> real list"

type_synonym clock = "real stream"

text \<open>\<^verbatim>\<open>time.time()\<close>: the next reading, and the clock after it.\<close>

definition time_time :: "clock \<Rightarrow> real \<times> clock" where
  "time_time clk = (shd clk, stl clk)"

subsection \<open>The constructor\<close>

text \<open>
  \<^verbatim>\<open>__init__\<close> stores its two arguments and an empty dictionary. It has no
  \<^verbatim>\<open>raise\<close> and no check, so the result is always a limiter; the result type leaves
  room for an exception all the same, so that "construction fails" can be stated.
\<close>

definition SlidingWindowRateLimiter :: "int \<Rightarrow> int \<Rightarrow> py_error + limiter" where
  "SlidingWindowRateLimiter ws mr =
     Inr \<lparr>window_size = ws, max_requests = mr, user_history = Map.empty\<rparr>"

subsection \<open>\<^verbatim>\<open>_cleanup_window\<close>\<close>

text \<open>
  The \<^verbatim>\<open>while\<close> loop of \<^verbatim>\<open>_cleanup_window\<close>: as long as the deque is non-empty and its
  left end is \<open>\<le> bound\<close> (where \<open>bound\<close> is \<^verbatim>\<open>current_time - self.window_size\<close>), pop it.
\<close>

fun popleft_while :: "real \<Rightarrow> real list \<Rightarrow> real list" where
  "popleft_while bound [] = []"
| "popleft_while bound (t # ts) = (if t \<le> bound then popleft_while bound ts else t # ts)"

definition cleanup_window :: "limiter \<Rightarrow> string \<Rightarrow> real \<Rightarrow> limiter" where
  "cleanup_window L user_id current_time =
     (case user_history L user_id of
        None \<Rightarrow> L
      | Some d \<Rightarrow>
          (let d' = popleft_while (current_time - real_of_int (window_size L)) d
           in if d' = []
              then L\<lparr>user_history := (user_history L)(user_id := None)\<rparr>
              else L\<lparr>user_history := (user_history L)(user_id \<mapsto> d')\<rparr>))"

subsection \<open>The public methods\<close>

text \<open>\<^verbatim>\<open>self.user_history.get(user_id, [])\<close>\<close>

definition history_of :: "limiter \<Rightarrow> string \<Rightarrow> real list" where
  "history_of L user_id = (case user_history L user_id of None \<Rightarrow> [] | Some d \<Rightarrow> d)"

definition can_send_message :: "limiter \<Rightarrow> string \<Rightarrow> clock \<Rightarrow> bool \<times> limiter \<times> clock" where
  "can_send_message L user_id clk =
     (let (current_time, clk1) = time_time clk;
          L1 = cleanup_window L user_id current_time
      in (int (length (history_of L1 user_id)) < max_requests L1, L1, clk1))"

text \<open>
  \<^verbatim>\<open>record_message\<close> reads the clock, then calls \<^verbatim>\<open>can_send_message\<close>, which reads the
  clock again; the value appended is the first reading. The deque that is appended to
  is the stored one, or a fresh empty one when the key is not in the dictionary.
\<close>

definition record_message :: "limiter \<Rightarrow> string \<Rightarrow> clock \<Rightarrow> bool \<times> limiter \<times> clock" where
  "record_message L user_id clk =
     (let (current_time, clk1) = time_time clk;
          (ok, L1, clk2) = can_send_message L user_id clk1
      in if ok
         then
           (let d = (case user_history L1 user_id of None \<Rightarrow> [] | Some d0 \<Rightarrow> d0)
            in (True, L1\<lparr>user_history := (user_history L1)(user_id \<mapsto> d @ [current_time])\<rparr>, clk2))
         else (False, L1, clk2))"

text \<open>
  \<^verbatim>\<open>time_until_next_allowed\<close>: the read \<^verbatim>\<open>self.user_history[user_id][0]\<close> raises
  \<^verbatim>\<open>IndexError\<close> on an empty deque; the limiter has been cleaned up by then, so the
  state is returned in either case.
\<close>

definition time_until_next_allowed ::
    "limiter \<Rightarrow> string \<Rightarrow> clock \<Rightarrow> (py_error + real) \<times> limiter \<times> clock" where
  "time_until_next_allowed L user_id clk =
     (let (current_time, clk1) = time_time clk;
          L1 = cleanup_window L user_id current_time
      in case user_history L1 user_id of
           None \<Rightarrow> (Inr 0, L1, clk1)
         | Some d \<Rightarrow>
             if int (length d) < max_requests L1 then (Inr 0, L1, clk1)
             else (case d of
                     [] \<Rightarrow> (Inl IndexError, L1, clk1)
                   | t0 # _ \<Rightarrow>
                       (Inr (max 0 (t0 + real_of_int (window_size L1) - current_time)), L1, clk1)))"

subsection \<open>Runs of the limiter\<close>

text \<open>
  A caller holds a limiter and calls its three public methods in some order. A run
  executes a list of calls from a limiter and a clock; the states that a program can
  reach are the results of the runs that start from a constructed limiter.
\<close>

datatype call = CanSend string | Record string | TimeUntil string

fun run_call :: "call \<Rightarrow> limiter \<times> clock \<Rightarrow> limiter \<times> clock" where
  "run_call (CanSend u) (L, clk) = snd (can_send_message L u clk)"
| "run_call (Record u) (L, clk) = snd (record_message L u clk)"
| "run_call (TimeUntil u) (L, clk) = snd (time_until_next_allowed L u clk)"

fun run :: "call list \<Rightarrow> limiter \<times> clock \<Rightarrow> limiter \<times> clock" where
  "run [] s = s"
| "run (c # cs) s = run cs (run_call c s)"


subsection \<open>Properties of states\<close>

text \<open>
  The condition on the entry of one key that the methods maintain: the key is not in
  the dictionary, or its deque is non-empty and holds at most \<^verbatim>\<open>max_requests\<close> times.
\<close>

definition key_ok :: "limiter \<Rightarrow> string \<Rightarrow> bool" where
  "key_ok L user_id =
     (case user_history L user_id of
        None \<Rightarrow> True
      | Some d \<Rightarrow> d \<noteq> [] \<and> int (length d) \<le> max_requests L)"

text \<open>
  A time \<open>t\<close> lies in the trailing window at \<open>now\<close> when it is in
  \<open>(now - window_size, now]\<close>; \<^verbatim>\<open>_cleanup_window\<close> pops the times \<open>\<le> now - window_size\<close>.
\<close>

definition in_window :: "limiter \<Rightarrow> real \<Rightarrow> real \<Rightarrow> bool" where
  "in_window L now t = (now - real_of_int (window_size L) < t \<and> t \<le> now)"

text \<open>
  The clock never goes back: every reading is at least the one before it.
\<close>

definition clock_mono :: "clock \<Rightarrow> bool" where
  "clock_mono clk = (\<forall>i. clk !! i \<le> clk !! Suc i)"

text \<open>
  The sequence of a key is in non-decreasing order and none of its times is later than
  the next reading of the clock.
\<close>

definition key_sorted :: "limiter \<Rightarrow> clock \<Rightarrow> string \<Rightarrow> bool" where
  "key_sorted L clk k =
     (sorted (history_of L k) \<and> list_all (\<lambda>t. t \<le> shd clk) (history_of L k))"

section \<open>The loop of \<^verbatim>\<open>_cleanup_window\<close>\<close>

lemma popleft_while_idem: "popleft_while b (popleft_while b d) = popleft_while b d"
  by (induction d) auto

lemma popleft_while_length: "length (popleft_while b d) \<le> length d"
  by (induction d) auto

lemma popleft_while_same_length:
  "length (popleft_while b d) = length d \<Longrightarrow> popleft_while b d = d"
proof (induction d)
  case Nil
  then show ?case by simp
next
  case (Cons t ts)
  show ?case
  proof (cases "t \<le> b")
    case True
    have "length (popleft_while b ts) \<le> length ts" by (rule popleft_while_length)
    with Cons.prems True show ?thesis by simp
  next
    case False
    then show ?thesis by simp
  qed
qed

lemma popleft_while_split:
  "\<exists>p. d = p @ popleft_while b d \<and> (\<forall>t \<in> set p. t \<le> b)"
proof (induction d)
  case Nil
  then show ?case by simp
next
  case (Cons t ts)
  then obtain p where p: "ts = p @ popleft_while b ts" "\<forall>x \<in> set p. x \<le> b" by blast
  show ?case
  proof (cases "t \<le> b")
    case True
    with p have "t # ts = (t # p) @ popleft_while b (t # ts) \<and> (\<forall>x \<in> set (t # p). x \<le> b)"
      by simp
    then show ?thesis by blast
  next
    case False
    then have "t # ts = [] @ popleft_while b (t # ts) \<and> (\<forall>x \<in> set ([]::real list). x \<le> b)"
      by simp
    then show ?thesis by blast
  qed
qed

lemma popleft_while_head: "popleft_while b d = t # ts \<Longrightarrow> \<not> t \<le> b"
  by (induction d) (auto split: if_splits)

lemma popleft_while_sorted:
  "sorted d \<Longrightarrow> popleft_while b d = filter (\<lambda>t. \<not> t \<le> b) d"
proof (induction d)
  case Nil
  then show ?case by simp
next
  case (Cons t ts)
  show ?case
  proof (cases "t \<le> b")
    case True
    with Cons show ?thesis by simp
  next
    case False
    with Cons.prems have "\<forall>x \<in> set ts. \<not> x \<le> b" by auto
    then have "filter (\<lambda>t. \<not> t \<le> b) ts = ts" by (simp add: filter_id_conv)
    with False show ?thesis by simp
  qed
qed

lemma popleft_while_all_expired:
  "\<forall>t \<in> set d. t \<le> b \<Longrightarrow> popleft_while b d = []"
  by (induction d) auto

lemma popleft_while_sorted_pres: "sorted d \<Longrightarrow> sorted (popleft_while b d)"
  by (induction d) auto

lemma popleft_while_set: "set (popleft_while b d) \<subseteq> set d"
  by (induction d) auto

section \<open>\<^verbatim>\<open>_cleanup_window\<close> on the dictionary\<close>

lemma cleanup_window_config [simp]:
  "window_size (cleanup_window L u t) = window_size L"
  "max_requests (cleanup_window L u t) = max_requests L"
  by (simp_all add: cleanup_window_def Let_def split: option.splits)

lemma cleanup_window_other:
  "u' \<noteq> u \<Longrightarrow> user_history (cleanup_window L u t) u' = user_history L u'"
  by (simp add: cleanup_window_def Let_def split: option.splits)

lemma cleanup_window_key:
  "user_history (cleanup_window L u t) u =
     (case user_history L u of
        None \<Rightarrow> None
      | Some d \<Rightarrow>
          if popleft_while (t - real_of_int (window_size L)) d = [] then None
          else Some (popleft_while (t - real_of_int (window_size L)) d))"
  by (simp add: cleanup_window_def Let_def split: option.splits)

lemma history_of_cleanup_window:
  "history_of (cleanup_window L u t) u =
     popleft_while (t - real_of_int (window_size L)) (history_of L u)"
  by (simp add: history_of_def cleanup_window_key split: option.splits)

lemma cleanup_window_not_empty: "user_history (cleanup_window L u t) u \<noteq> Some []"
  by (simp add: cleanup_window_key split: option.splits)

lemma limiter_eqI:
  "window_size L = window_size (L'::limiter) \<Longrightarrow> max_requests L = max_requests L' \<Longrightarrow>
   (\<And>k. user_history L k = user_history L' k) \<Longrightarrow> L = L'"
  by (cases L, cases L') auto

lemma cleanup_window_idem:
  "cleanup_window (cleanup_window L u t) u t = cleanup_window L u t"
proof (rule limiter_eqI)
  fix k
  show "user_history (cleanup_window (cleanup_window L u t) u t) k
      = user_history (cleanup_window L u t) k"
  proof (cases "k = u")
    case True
    then show ?thesis
      by (simp add: cleanup_window_key popleft_while_idem split: option.splits)
  next
    case False
    then show ?thesis by (simp add: cleanup_window_other)
  qed
qed simp_all

lemma cleanup_window_unchanged:
  assumes "user_history L u = Some d" "d \<noteq> []"
    and "popleft_while (t - real_of_int (window_size L)) d = d"
  shows "cleanup_window L u t = L"
proof (rule limiter_eqI)
  fix k
  show "user_history (cleanup_window L u t) k = user_history L k"
    using assms by (cases "k = u") (simp_all add: cleanup_window_key cleanup_window_other)
qed simp_all

lemma cleanup_window_absent: "user_history L u = None \<Longrightarrow> cleanup_window L u t = L"
  by (simp add: cleanup_window_def)

section \<open>The methods, with the clock readings made explicit\<close>

lemma can_send_message_unfold:
  "can_send_message L u clk =
     (int (length (history_of (cleanup_window L u (shd clk)) u)) < max_requests L,
      cleanup_window L u (shd clk), stl clk)"
  by (simp add: can_send_message_def time_time_def Let_def)

lemma record_message_unfold:
  "record_message L u clk =
     (if int (length (history_of (cleanup_window L u (shd (stl clk))) u)) < max_requests L
      then (True,
            (cleanup_window L u (shd (stl clk)))
              \<lparr>user_history := (user_history (cleanup_window L u (shd (stl clk))))
                 (u \<mapsto> history_of (cleanup_window L u (shd (stl clk))) u @ [shd clk])\<rparr>,
            stl (stl clk))
      else (False, cleanup_window L u (shd (stl clk)), stl (stl clk)))"
  by (simp add: record_message_def can_send_message_unfold time_time_def Let_def history_of_def)

lemma time_until_next_allowed_state:
  "snd (time_until_next_allowed L u clk) = (cleanup_window L u (shd clk), stl clk)"
  by (simp add: time_until_next_allowed_def time_time_def Let_def
      split: option.splits list.splits)

section \<open>The invariant of a key's entry\<close>

lemma key_ok_cleanup: "key_ok L k \<Longrightarrow> key_ok (cleanup_window L u t) k"
proof (cases "k = u")
  case True
  assume ok: "key_ok L k"
  show ?thesis
  proof (cases "user_history L u")
    case None
    then show ?thesis using ok True by (simp add: cleanup_window_absent)
  next
    case (Some d)
    have "length (popleft_while (t - real_of_int (window_size L)) d) \<le> length d"
      by (rule popleft_while_length)
    with ok True Some show ?thesis
      by (simp add: key_ok_def cleanup_window_key)
  qed
next
  case False
  assume "key_ok L k"
  with False show ?thesis
    by (simp add: key_ok_def cleanup_window_other split: option.splits)
qed

lemma key_ok_record: "key_ok L k \<Longrightarrow> key_ok (fst (snd (record_message L u clk))) k"
proof -
  assume ok: "key_ok L k"
  let ?L1 = "cleanup_window L u (shd (stl clk))"
  have ok1: "key_ok ?L1 k" using ok by (rule key_ok_cleanup)
  show ?thesis
  proof (cases "int (length (history_of ?L1 u)) < max_requests L")
    case False
    then show ?thesis using ok1 by (simp add: record_message_unfold)
  next
    case True
    show ?thesis
    proof (cases "k = u")
      case False
      with True ok1 show ?thesis
        by (simp add: record_message_unfold key_ok_def split: option.splits)
    next
      case keq: True
      with True show ?thesis by (simp add: record_message_unfold key_ok_def)
    qed
  qed
qed

lemma key_ok_run_call: "key_ok L k \<Longrightarrow> key_ok (fst (run_call c (L, clk))) k"
  by (cases c)
     (simp_all add: can_send_message_unfold time_until_next_allowed_state
        key_ok_cleanup key_ok_record)

lemma key_ok_run: "key_ok (fst s) k \<Longrightarrow> key_ok (fst (run cs s)) k"
proof (induction cs arbitrary: s)
  case Nil
  then show ?case by simp
next
  case (Cons c cs)
  obtain L clk where s: "s = (L, clk)" by (cases s)
  with Cons.prems have "key_ok (fst (run_call c s)) k" by (simp add: key_ok_run_call)
  then show ?case using Cons.IH by simp
qed

lemma key_ok_init: "SlidingWindowRateLimiter ws mr = Inr L0 \<Longrightarrow> key_ok L0 k"
  by (auto simp: SlidingWindowRateLimiter_def key_ok_def)

lemma key_ok_reachable:
  "SlidingWindowRateLimiter ws mr = Inr L0 \<Longrightarrow> run cs (L0, clk0) = (L, clk) \<Longrightarrow> key_ok L k"
  using key_ok_run [of "(L0, clk0)" k cs] key_ok_init [of ws mr L0 k] by simp

lemma run_config:
  "window_size (fst (run cs s)) = window_size (fst s)
   \<and> max_requests (fst (run cs s)) = max_requests (fst s)"
proof (induction cs arbitrary: s)
  case Nil
  then show ?case by simp
next
  case (Cons c cs)
  obtain L clk where s: "s = (L, clk)" by (cases s)
  have "window_size (fst (run_call c s)) = window_size L
      \<and> max_requests (fst (run_call c s)) = max_requests L"
    unfolding s
    by (cases c)
       (simp_all add: can_send_message_unfold time_until_next_allowed_state record_message_unfold)
  with Cons.IH [of "run_call c s"] s show ?case by simp
qed

lemma record_refused_unchanged:
  assumes ok: "key_ok L u" and no: "\<not> fst (record_message L u clk)"
  shows "fst (snd (record_message L u clk)) = L"
proof -
  let ?t = "shd (stl clk)"
  let ?L1 = "cleanup_window L u ?t"
  from no have full: "max_requests L \<le> int (length (history_of ?L1 u))"
    by (simp add: record_message_unfold split: if_splits)
  from no have st: "fst (snd (record_message L u clk)) = ?L1"
    by (simp add: record_message_unfold split: if_splits)
  show ?thesis
  proof (cases "user_history L u")
    case None
    then show ?thesis using st by (simp add: cleanup_window_absent)
  next
    case (Some d)
    let ?d' = "popleft_while (?t - real_of_int (window_size L)) d"
    from ok Some have d: "d \<noteq> []" "int (length d) \<le> max_requests L"
      by (simp_all add: key_ok_def)
    have "history_of ?L1 u = ?d'"
      using Some by (simp add: history_of_cleanup_window) (simp add: history_of_def)
    with full d have "length d \<le> length ?d'" by simp
    moreover have "length ?d' \<le> length d" by (rule popleft_while_length)
    ultimately have "length ?d' = length d" by linarith
    then have "?d' = d" by (rule popleft_while_same_length)
    with Some d have "?L1 = L" by (simp add: cleanup_window_unchanged)
    with st show ?thesis by simp
  qed
qed


lemma can_send_refused_unchanged:
  assumes ok: "key_ok L u" and no: "\<not> fst (can_send_message L u clk)"
  shows "fst (snd (can_send_message L u clk)) = L"
proof -
  have r: "record_message L u (shd clk ## clk) =
     (if fst (can_send_message L u clk)
      then (True,
            (cleanup_window L u (shd clk))
              \<lparr>user_history := (user_history (cleanup_window L u (shd clk)))
                 (u \<mapsto> history_of (cleanup_window L u (shd clk)) u @ [shd clk])\<rparr>,
            stl clk)
      else (False, fst (snd (can_send_message L u clk)), stl clk))"
    by (simp add: record_message_unfold can_send_message_unfold)
  with no have "\<not> fst (record_message L u (shd clk ## clk))" by simp
  with ok have "fst (snd (record_message L u (shd clk ## clk))) = L"
    by (rule record_refused_unchanged)
  with r no show ?thesis by simp
qed

lemma hd_sorted_Min: "sorted d \<Longrightarrow> d \<noteq> [] \<Longrightarrow> hd d = Min (set d)"
  by (cases d) (auto intro!: Min_eqI [symmetric])

lemma no_empty_run_call:
  "user_history L k' \<noteq> Some [] \<Longrightarrow> user_history (fst (run_call c (L, clk))) k' \<noteq> Some []"
proof -
  assume a: "user_history L k' \<noteq> Some []"
  have cl: "user_history (cleanup_window L u t) k' \<noteq> Some []" for u t
    using a cleanup_window_not_empty [of L u t]
    by (cases "k' = u") (simp_all add: cleanup_window_other)
  show ?thesis
  proof (cases c)
    case (CanSend u)
    then show ?thesis using cl by (simp add: can_send_message_unfold)
  next
    case (Record u)
    then show ?thesis using cl by (simp add: record_message_unfold)
  next
    case (TimeUntil u)
    then show ?thesis using cl by (simp add: time_until_next_allowed_state)
  qed
qed


section \<open>Order of the stored times under a clock that never goes back\<close>

lemma clock_mono_stl: "clock_mono clk \<Longrightarrow> clock_mono (stl clk)"
proof -
  assume m: "clock_mono clk"
  have "stl clk !! i \<le> stl clk !! Suc i" for i
    using m [unfolded clock_mono_def, rule_format, of "Suc i"] by simp
  then show ?thesis by (simp add: clock_mono_def)
qed

lemma clock_mono_shd: "clock_mono clk \<Longrightarrow> shd clk \<le> shd (stl clk)"
  using snth.simps by (auto simp: clock_mono_def dest: spec [of _ 0])

lemma key_sorted_later:
  "key_sorted L clk k \<Longrightarrow> shd clk \<le> shd clk' \<Longrightarrow> key_sorted L clk' k"
  by (auto simp: key_sorted_def list_all_iff)

lemma key_sorted_cleanup: "key_sorted L clk k \<Longrightarrow> key_sorted (cleanup_window L u t) clk k"
proof (cases "k = u")
  case True
  assume a: "key_sorted L clk k"
  have "set (popleft_while (t - real_of_int (window_size L)) (history_of L u))
      \<subseteq> set (history_of L u)"
    by (rule popleft_while_set)
  with a True show ?thesis
    by (auto simp: key_sorted_def history_of_cleanup_window popleft_while_sorted_pres list_all_iff)
next
  case False
  assume "key_sorted L clk k"
  with False show ?thesis
    by (simp add: key_sorted_def history_of_def cleanup_window_other)
qed

lemma key_sorted_run_call:
  assumes m: "clock_mono clk" and a: "key_sorted L clk k"
  shows "key_sorted (fst (run_call c (L, clk))) (snd (run_call c (L, clk))) k
       \<and> clock_mono (snd (run_call c (L, clk)))"
proof -
  have m1: "clock_mono (stl clk)" using m by (rule clock_mono_stl)
  then have m2: "clock_mono (stl (stl clk))" by (rule clock_mono_stl)
  have le1: "shd clk \<le> shd (stl clk)" using m by (rule clock_mono_shd)
  have le2: "shd (stl clk) \<le> shd (stl (stl clk))" using m1 by (rule clock_mono_shd)
  have cl: "key_sorted (cleanup_window L u t) clk k" for u t
    using a by (rule key_sorted_cleanup)
  show ?thesis
  proof (cases c)
    case (CanSend u)
    then show ?thesis
      using m1 key_sorted_later [OF cl le1] by (simp add: can_send_message_unfold)
  next
    case (TimeUntil u)
    then show ?thesis
      using m1 key_sorted_later [OF cl le1] by (simp add: time_until_next_allowed_state)
  next
    case (Record u)
    let ?L1 = "cleanup_window L u (shd (stl clk))"
    have c1: "key_sorted ?L1 clk k" by (rule cl)
    have le: "shd clk \<le> shd (stl (stl clk))" using le1 le2 by linarith
    show ?thesis
    proof (cases "int (length (history_of ?L1 u)) < max_requests L")
      case False
      with Record m2 key_sorted_later [OF c1 le] show ?thesis
        by (simp add: record_message_unfold)
    next
      case True
      show ?thesis
      proof (cases "k = u")
        case False
        with True Record m2 key_sorted_later [OF c1 le] show ?thesis
          by (simp add: record_message_unfold key_sorted_def history_of_def)
      next
        case keq: True
        from c1 keq have "sorted (history_of ?L1 u @ [shd clk])"
          by (auto simp: key_sorted_def sorted_append list_all_iff)
        moreover from c1 keq le
        have "list_all (\<lambda>t. t \<le> shd (stl (stl clk))) (history_of ?L1 u @ [shd clk])"
          by (auto simp: key_sorted_def list_all_iff)
        ultimately show ?thesis
          using True Record m2 keq
          by (simp add: record_message_unfold key_sorted_def history_of_def)
      qed
    qed
  qed
qed

lemma key_sorted_run:
  "clock_mono (snd s) \<Longrightarrow> key_sorted (fst s) (snd s) k \<Longrightarrow>
     key_sorted (fst (run cs s)) (snd (run cs s)) k \<and> clock_mono (snd (run cs s))"
proof (induction cs arbitrary: s)
  case Nil
  then show ?case by simp
next
  case (Cons c cs)
  obtain L clk where s: "s = (L, clk)" by (cases s)
  from Cons.prems s have "key_sorted (fst (run_call c s)) (snd (run_call c s)) k
       \<and> clock_mono (snd (run_call c s))"
    using key_sorted_run_call [of clk L k c] by simp
  then show ?case using Cons.IH [of "run_call c s"] by simp
qed

lemma sorted_reachable:
  assumes "SlidingWindowRateLimiter ws mr = Inr L0" and "clock_mono clk0"
    and "run cs (L0, clk0) = (L, clk)"
  shows "sorted (history_of L k)"
proof -
  from assms(1) have "key_sorted L0 clk0 k"
    by (auto simp: SlidingWindowRateLimiter_def key_sorted_def history_of_def)
  with assms(2) key_sorted_run [of "(L0, clk0)" k cs] assms(3)
  show ?thesis by (simp add: key_sorted_def)
qed


section \<open>The claims\<close>

subsection \<open>C1: the clock readings of \<^verbatim>\<open>record_message\<close>\<close>

text \<open>
  C1 (as stated, refuted). The claim: a call of record reads the time once, and the
  timestamp stored on a true result is the time that the admission check was evaluated
  against. In the code \<^verbatim>\<open>record_message\<close> reads \<^verbatim>\<open>time.time()\<close> and then calls
  \<^verbatim>\<open>can_send_message\<close>, which reads it again. With window 10, quota 1 and the history
  \<open>[0]\<close> of the key, the readings 9.5 and 10 give: the request is admitted (the check
  at 10 purges the entry 0), the stored timestamp is 9.5, and an admission check
  evaluated at 9.5 refuses while one evaluated at 10 admits; two readings of the clock
  are consumed.
\<close>

theorem record_message_two_readings_counterexample:
  "fst (record_message \<lparr>window_size = 10, max_requests = 1, user_history = [''u'' \<mapsto> [0]]\<rparr> ''u''
          (9.5 ## 10 ## sconst 11)) = True
   \<and> user_history (fst (snd (record_message
          \<lparr>window_size = 10, max_requests = 1, user_history = [''u'' \<mapsto> [0]]\<rparr> ''u''
          (9.5 ## 10 ## sconst 11)))) ''u'' = Some [9.5]
   \<and> fst (can_send_message \<lparr>window_size = 10, max_requests = 1, user_history = [''u'' \<mapsto> [0]]\<rparr> ''u''
          (9.5 ## sconst 11)) = False
   \<and> fst (can_send_message \<lparr>window_size = 10, max_requests = 1, user_history = [''u'' \<mapsto> [0]]\<rparr> ''u''
          (10 ## sconst 11)) = True
   \<and> snd (snd (record_message \<lparr>window_size = 10, max_requests = 1, user_history = [''u'' \<mapsto> [0]]\<rparr> ''u''
          (9.5 ## 10 ## sconst 11))) = sconst 11"
  by (simp add: record_message_unfold can_send_message_unfold cleanup_window_def history_of_def)

text \<open>
  C1 (amended). A call of record reads the clock twice. The second reading, taken inside
  the admission check, is the time of the cleanup and of the check; the first reading is
  the timestamp appended on a true result. (When the two readings are equal, this is the
  behaviour of a single snapshot.)
\<close>

theorem record_message_readings:
  "record_message L u clk =
     (let L1 = cleanup_window L u (shd (stl clk))
      in if int (length (history_of L1 u)) < max_requests L
         then (True,
               L1\<lparr>user_history := (user_history L1)(u \<mapsto> history_of L1 u @ [shd clk])\<rparr>,
               stl (stl clk))
         else (False, L1, stl (stl clk)))"
  by (simp add: record_message_unfold Let_def)

subsection \<open>C2: construction with a non-positive configuration\<close>

text \<open>
  C2 (as stated, refuted). The claim: building a limiter with a non-positive window size
  or a non-positive quota fails with a configuration error. \<^verbatim>\<open>__init__\<close> checks nothing:
  with window size 0 and quota -1 a limiter is built and holds those values.
\<close>

theorem constructor_accepts_counterexample:
  "\<not> isl (SlidingWindowRateLimiter 0 (- 1))
   \<and> window_size (projr (SlidingWindowRateLimiter 0 (- 1))) = 0
   \<and> max_requests (projr (SlidingWindowRateLimiter 0 (- 1))) = - 1"
  by (simp add: SlidingWindowRateLimiter_def)

text \<open>
  C2 (amended). Construction never fails: for every window size and every quota,
  positive or not, the constructor returns a limiter that stores the two values as
  given (no clamping) and an empty history.
\<close>

theorem constructor_total:
  "SlidingWindowRateLimiter ws mr =
     Inr \<lparr>window_size = ws, max_requests = mr, user_history = Map.empty\<rparr>"
  by (simp add: SlidingWindowRateLimiter_def)

subsection \<open>C3: the contract of \<^verbatim>\<open>record_message\<close>\<close>

text \<open>
  C3. Take any state that a constructed limiter reaches through a run of its public
  methods (any configuration, any calls, any clock), and any key. Whenever record
  returns false in that state, the limiter after the call is exactly the limiter before
  it: nothing is appended and nothing is pruned, for this key or any other. Whenever
  record returns true, the call's own reading of the clock has been appended to the
  key's sequence (to what the cleanup left of it). The cleanup does run before the check,
  but in a reachable state the key's sequence is never longer than \<^verbatim>\<open>max_requests\<close>, so
  a refusal means that the cleanup found nothing to pop.
\<close>

theorem record_message_contract:
  assumes "SlidingWindowRateLimiter ws mr = Inr L0" and "run cs (L0, clk0) = (L, clk)"
  shows "(fst (record_message L u clk) = False
            \<longrightarrow> fst (snd (record_message L u clk)) = L)
       \<and> (fst (record_message L u clk) = True
            \<longrightarrow> user_history (fst (snd (record_message L u clk))) u
                  = Some (history_of (cleanup_window L u (shd (stl clk))) u @ [shd clk]))"
proof (intro conjI impI)
  have ok: "key_ok L u" using assms by (rule key_ok_reachable)
  assume "fst (record_message L u clk) = False"
  then have "\<not> fst (record_message L u clk)" by simp
  with ok show "fst (snd (record_message L u clk)) = L"
    by (rule record_refused_unchanged)
next
  assume "fst (record_message L u clk) = True"
  then show "user_history (fst (snd (record_message L u clk))) u
            = Some (history_of (cleanup_window L u (shd (stl clk))) u @ [shd clk])"
    by (simp add: record_message_unfold split: if_splits)
qed

theorem record_message_contract_witness:
  "SlidingWindowRateLimiter 10 1
     = Inr \<lparr>window_size = 10, max_requests = 1, user_history = Map.empty\<rparr>
   \<and> run [Record ''u'']
         (\<lparr>window_size = 10, max_requests = 1, user_history = Map.empty\<rparr>, 0 ## 0 ## sconst 5)
     = (\<lparr>window_size = 10, max_requests = 1, user_history = [''u'' \<mapsto> [0]]\<rparr>, sconst 5)
   \<and> fst (record_message \<lparr>window_size = 10, max_requests = 1, user_history = [''u'' \<mapsto> [0]]\<rparr>
            ''u'' (sconst 5)) = False
   \<and> fst (snd (record_message \<lparr>window_size = 10, max_requests = 1, user_history = [''u'' \<mapsto> [0]]\<rparr>
            ''u'' (sconst 5)))
      = \<lparr>window_size = 10, max_requests = 1, user_history = [''u'' \<mapsto> [0]]\<rparr>
   \<and> run [Record ''u'']
         (\<lparr>window_size = 10, max_requests = 1, user_history = Map.empty\<rparr>, 0 ## 0 ## sconst 10)
     = (\<lparr>window_size = 10, max_requests = 1, user_history = [''u'' \<mapsto> [0]]\<rparr>, sconst 10)
   \<and> fst (record_message \<lparr>window_size = 10, max_requests = 1, user_history = [''u'' \<mapsto> [0]]\<rparr>
            ''u'' (sconst 10)) = True
   \<and> user_history (fst (snd (record_message
            \<lparr>window_size = 10, max_requests = 1, user_history = [''u'' \<mapsto> [0]]\<rparr>
            ''u'' (sconst 10)))) ''u'' = Some [10]"
proof -
  let ?I = "\<lparr>window_size = 10, max_requests = 1, user_history = Map.empty\<rparr>"
  let ?L = "\<lparr>window_size = 10, max_requests = 1, user_history = [''u'' \<mapsto> [0::real]]\<rparr>"
  have i: "SlidingWindowRateLimiter 10 1 = Inr ?I" by (simp add: SlidingWindowRateLimiter_def)
  have r5: "run [Record ''u''] (?I, 0 ## 0 ## sconst 5) = (?L, sconst 5)"
    by (simp add: record_message_unfold cleanup_window_def history_of_def)
  have r10: "run [Record ''u''] (?I, 0 ## 0 ## sconst 10) = (?L, sconst 10)"
    by (simp add: record_message_unfold cleanup_window_def history_of_def)
  have f: "fst (record_message ?L ''u'' (sconst 5)) = False"
    by (simp add: record_message_unfold cleanup_window_def history_of_def)
  have t: "fst (record_message ?L ''u'' (sconst 10)) = True"
    by (simp add: record_message_unfold cleanup_window_def history_of_def)
  have h: "history_of (cleanup_window ?L ''u'' (shd (stl (sconst 10)))) ''u'' = []"
    by (simp add: cleanup_window_def history_of_def)
  from record_message_contract [OF i r5, of "''u''"] f
  have 1: "fst (snd (record_message ?L ''u'' (sconst 5))) = ?L" by simp
  from record_message_contract [OF i r10, of "''u''"] t h
  have 2: "user_history (fst (snd (record_message ?L ''u'' (sconst 10)))) ''u'' = Some [10]"
    by simp
  show ?thesis
    by (rule conjI [OF i conjI [OF r5 conjI [OF f conjI [OF 1 conjI [OF r10 conjI [OF t 2]]]]]])
qed

subsection \<open>C4: \<^verbatim>\<open>can_send_message\<close> and \<^verbatim>\<open>record_message\<close> agree\<close>

text \<open>
  C4. For every key, every state of the history and every time \<open>t\<close>: let the admission
  check at \<open>t\<close> return \<open>b\<close> and leave the limiter \<open>L'\<close> (the check prunes the key's
  stale entries). A record whose two clock readings are \<open>t\<close> returns the same \<open>b\<close>,
  whether it runs in the state before the check or in the state \<open>L'\<close> after it. When
  \<open>b\<close> is false, record called after the check leaves \<open>L'\<close> unchanged, and record
  called in place of the check ends in the same \<open>L'\<close>; and in a state in which the
  key's sequence is non-empty and within the quota (every reachable state), \<open>L'\<close> is
  the state before the check, so nothing changes at all.
\<close>

theorem can_send_record_consistent:
  "can_send_message L k (t ## clk) = (b, L', clk') \<Longrightarrow>
     fst (record_message L k (t ## t ## clk2)) = b
   \<and> fst (record_message L' k (t ## t ## clk2)) = b
   \<and> (\<not> b \<longrightarrow> fst (snd (record_message L' k (t ## t ## clk2))) = L'
              \<and> fst (snd (record_message L k (t ## t ## clk2))) = L')
   \<and> (\<not> b \<and> key_ok L k \<longrightarrow> L' = L)"
proof -
  assume a: "can_send_message L k (t ## clk) = (b, L', clk')"
  then have L': "L' = cleanup_window L k t"
    and b: "b = (int (length (history_of (cleanup_window L k t) k)) < max_requests L)"
    by (auto simp: can_send_message_unfold)
  have 1: "fst (record_message L k (t ## t ## clk2)) = b"
    by (simp add: record_message_unfold b)
  have 2: "fst (record_message L' k (t ## t ## clk2)) = b"
    by (simp add: record_message_unfold L' cleanup_window_idem b)
  have 3: "\<not> b \<longrightarrow> fst (snd (record_message L' k (t ## t ## clk2))) = L'
              \<and> fst (snd (record_message L k (t ## t ## clk2))) = L'"
    using 1 2 by (simp add: record_message_unfold L' cleanup_window_idem split: if_splits)
  have 4: "\<not> b \<and> key_ok L k \<longrightarrow> L' = L"
    using can_send_refused_unchanged [of L k "t ## clk"] a by simp
  from 1 2 3 4 show ?thesis by blast
qed

theorem can_send_record_consistent_witness:
  "can_send_message \<lparr>window_size = 10, max_requests = 1, user_history = [''u'' \<mapsto> [0]]\<rparr> ''u''
       (5 ## sconst 6)
     = (False, \<lparr>window_size = 10, max_requests = 1, user_history = [''u'' \<mapsto> [0]]\<rparr>, sconst 6)
   \<and> key_ok \<lparr>window_size = 10, max_requests = 1, user_history = [''u'' \<mapsto> [0]]\<rparr> ''u''
   \<and> fst (record_message \<lparr>window_size = 10, max_requests = 1, user_history = [''u'' \<mapsto> [0]]\<rparr>
          ''u'' (5 ## 5 ## sconst 6)) = False
   \<and> fst (snd (record_message \<lparr>window_size = 10, max_requests = 1, user_history = [''u'' \<mapsto> [0]]\<rparr>
          ''u'' (5 ## 5 ## sconst 6)))
      = \<lparr>window_size = 10, max_requests = 1, user_history = [''u'' \<mapsto> [0]]\<rparr>
   \<and> fst (can_send_message \<lparr>window_size = 10, max_requests = 1, user_history = [''u'' \<mapsto> [0]]\<rparr>
          ''u'' (10 ## sconst 11)) = True
   \<and> fst (record_message \<lparr>window_size = 10, max_requests = 1, user_history = [''u'' \<mapsto> [0]]\<rparr>
          ''u'' (10 ## 10 ## sconst 11)) = True"
proof -
  let ?L = "\<lparr>window_size = 10, max_requests = 1, user_history = [''u'' \<mapsto> [0::real]]\<rparr>"
  have k: "key_ok ?L ''u''" by (simp add: key_ok_def)
  have c: "cleanup_window ?L ''u'' 5 = ?L"
    by (rule cleanup_window_unchanged [where d = "[0]"]) simp_all
  have a: "can_send_message ?L ''u'' (5 ## sconst 6) = (False, ?L, sconst 6)"
    by (simp add: can_send_message_unfold c) (simp add: history_of_def)
  from can_send_record_consistent [OF a, of "sconst 6"]
  have f: "fst (record_message ?L ''u'' (5 ## 5 ## sconst 6)) = False"
    and u: "fst (snd (record_message ?L ''u'' (5 ## 5 ## sconst 6))) = ?L"
    by simp_all
  have a': "can_send_message ?L ''u'' (10 ## sconst 11)
      = (True, cleanup_window ?L ''u'' 10, sconst 11)"
    by (simp add: can_send_message_unfold) (simp add: cleanup_window_def history_of_def)
  then have b: "fst (can_send_message ?L ''u'' (10 ## sconst 11)) = True" by simp
  from can_send_record_consistent [OF a', of "sconst 11"]
  have t: "fst (record_message ?L ''u'' (10 ## 10 ## sconst 11)) = True" by simp
  show ?thesis
    by (rule conjI [OF a conjI [OF k conjI [OF f conjI [OF u conjI [OF b t]]]]])
qed

subsection \<open>C5: the quota bound\<close>

text \<open>
  C5. Take a limiter constructed with a quota \<open>mr \<ge> 0\<close> and run any list of calls of
  the three public methods on it, with any clock (so in particular with one that never
  goes back). In the state reached, for every key and every time \<open>now\<close>, the number of
  stored times of the key that lie in the trailing window at \<open>now\<close> is at most \<open>mr\<close>
  (the whole sequence is no longer than \<open>mr\<close>); and a record that finds, after its
  cleanup, at least \<open>mr\<close> times for the key refuses.
\<close>

theorem quota_bound:
  assumes "0 \<le> mr" and "SlidingWindowRateLimiter ws mr = Inr L0"
    and "run cs (L0, clk0) = (L, clk)"
  shows "max_requests L = mr
       \<and> int (length (filter (in_window L now) (history_of L k))) \<le> mr
       \<and> int (length (history_of L k)) \<le> mr
       \<and> (mr \<le> int (length (history_of (cleanup_window L k (shd (stl clk))) k))
            \<longrightarrow> fst (record_message L k clk) = False)"
proof -
  have ok: "key_ok L k" using assms(2,3) by (rule key_ok_reachable)
  have "max_requests (fst (run cs (L0, clk0))) = max_requests L0"
    using run_config [of cs "(L0, clk0)"] by simp
  with assms(2,3) have mr: "max_requests L = mr"
    by (auto simp: SlidingWindowRateLimiter_def)
  from ok assms(1) mr have len: "int (length (history_of L k)) \<le> mr"
    by (simp add: key_ok_def history_of_def split: option.splits)
  have "int (length (filter (in_window L now) (history_of L k))) \<le> int (length (history_of L k))"
    by simp
  with len have win: "int (length (filter (in_window L now) (history_of L k))) \<le> mr"
    by linarith
  have ref: "mr \<le> int (length (history_of (cleanup_window L k (shd (stl clk))) k))
            \<longrightarrow> fst (record_message L k clk) = False"
    by (simp add: record_message_unfold mr)
  from mr win len ref show ?thesis by blast
qed

theorem quota_bound_witness:
  "(0::int) \<le> 1
   \<and> SlidingWindowRateLimiter 10 1 = Inr \<lparr>window_size = 10, max_requests = 1, user_history = Map.empty\<rparr>
   \<and> fst (run [Record ''u'']
          (\<lparr>window_size = 10, max_requests = 1, user_history = Map.empty\<rparr>, 0 ## 0 ## sconst 5))
       = \<lparr>window_size = 10, max_requests = 1, user_history = [''u'' \<mapsto> [0]]\<rparr>
   \<and> int (length (filter
         (in_window \<lparr>window_size = 10, max_requests = 1, user_history = [''u'' \<mapsto> [0]]\<rparr> 5)
         (history_of \<lparr>window_size = 10, max_requests = 1, user_history = [''u'' \<mapsto> [0]]\<rparr> ''u''))) = 1
   \<and> fst (record_message \<lparr>window_size = 10, max_requests = 1, user_history = [''u'' \<mapsto> [0]]\<rparr>
            ''u'' (sconst 5)) = False"
proof -
  let ?I = "\<lparr>window_size = 10, max_requests = 1, user_history = Map.empty\<rparr>"
  let ?L = "\<lparr>window_size = 10, max_requests = 1, user_history = [''u'' \<mapsto> [0::real]]\<rparr>"
  have z: "(0::int) \<le> 1" by simp
  have i: "SlidingWindowRateLimiter 10 1 = Inr ?I" by (simp add: SlidingWindowRateLimiter_def)
  have r: "run [Record ''u''] (?I, 0 ## 0 ## sconst 5) = (?L, sconst 5)"
    by (simp add: record_message_unfold cleanup_window_def history_of_def)
  then have r': "fst (run [Record ''u''] (?I, 0 ## 0 ## sconst 5)) = ?L" by simp
  have n: "int (length (filter (in_window ?L 5) (history_of ?L ''u''))) = 1"
    by (simp add: in_window_def history_of_def)
  have c: "cleanup_window ?L ''u'' 5 = ?L"
    by (rule cleanup_window_unchanged [where d = "[0]"]) simp_all
  have "(1::int) \<le> int (length (history_of (cleanup_window ?L ''u'' 5) ''u''))"
    unfolding c by (simp add: history_of_def)
  with quota_bound [OF z i r, of 5 "''u''"] 
  have f: "fst (record_message ?L ''u'' (sconst 5)) = False"
    by simp
  show ?thesis
    by (rule conjI [OF z conjI [OF i conjI [OF r' conjI [OF n f]]]])
qed

subsection \<open>C6: what \<^verbatim>\<open>_cleanup_window\<close> removes\<close>

text \<open>
  C6. For every key and every time \<open>now\<close>, cleanup removes a prefix of the key's
  sequence, and every time it removes is \<open>\<le> now - window_size\<close>: no time still in
  the window is removed. When the sequence is in the order in which it was recorded
  (non-decreasing), what remains is exactly the times that are not
  \<open>\<le> now - window_size\<close>: every aged-out time is removed. The key is deleted exactly when
  nothing remains, the other keys are untouched, and a second cleanup with the same
  \<open>now\<close> changes nothing.
\<close>

theorem cleanup_window_exact:
  "(\<exists>p. history_of L k = p @ history_of (cleanup_window L k now) k
        \<and> (\<forall>t \<in> set p. t \<le> now - real_of_int (window_size L)))
   \<and> (sorted (history_of L k) \<longrightarrow>
        history_of (cleanup_window L k now) k
          = filter (\<lambda>t. \<not> t \<le> now - real_of_int (window_size L)) (history_of L k))
   \<and> (user_history (cleanup_window L k now) k = None
        \<longleftrightarrow> history_of (cleanup_window L k now) k = [])
   \<and> (k' \<noteq> k \<longrightarrow> user_history (cleanup_window L k now) k' = user_history L k')
   \<and> cleanup_window (cleanup_window L k now) k now = cleanup_window L k now"
proof (intro conjI impI)
  show "\<exists>p. history_of L k = p @ history_of (cleanup_window L k now) k
        \<and> (\<forall>t \<in> set p. t \<le> now - real_of_int (window_size L))"
    unfolding history_of_cleanup_window by (rule popleft_while_split)
next
  assume "sorted (history_of L k)"
  then show "history_of (cleanup_window L k now) k
          = filter (\<lambda>t. \<not> t \<le> now - real_of_int (window_size L)) (history_of L k)"
    unfolding history_of_cleanup_window by (rule popleft_while_sorted)
next
  show "user_history (cleanup_window L k now) k = None
        \<longleftrightarrow> history_of (cleanup_window L k now) k = []"
    using cleanup_window_not_empty [of L k now]
    by (auto simp: history_of_def split: option.splits)
next
  assume "k' \<noteq> k"
  then show "user_history (cleanup_window L k now) k' = user_history L k'"
    by (rule cleanup_window_other)
next
  show "cleanup_window (cleanup_window L k now) k now = cleanup_window L k now"
    by (rule cleanup_window_idem)
qed

theorem cleanup_window_exact_witness:
  "sorted (history_of \<lparr>window_size = 10, max_requests = 3, user_history = [''u'' \<mapsto> [0, 5, 12]]\<rparr> ''u'')
   \<and> history_of (cleanup_window
          \<lparr>window_size = 10, max_requests = 3, user_history = [''u'' \<mapsto> [0, 5, 12]]\<rparr> ''u'' 12) ''u''
        = [5, 12]
   \<and> ''v'' \<noteq> ''u''
   \<and> user_history (cleanup_window
          \<lparr>window_size = 10, max_requests = 3, user_history = [''u'' \<mapsto> [0, 5, 12]]\<rparr> ''u'' 12) ''v''
        = None"
proof -
  let ?L = "\<lparr>window_size = 10, max_requests = 3, user_history = [''u'' \<mapsto> [0::real, 5, 12]]\<rparr>"
  have s: "sorted (history_of ?L ''u'')" by (simp add: history_of_def)
  have n: "''v'' \<noteq> ''u''" by simp
  have h: "history_of ?L ''u'' = [0, 5, 12]" by (simp add: history_of_def)
  from cleanup_window_exact [of ?L "''u''" 12 "''v''"] s n
  have "history_of (cleanup_window ?L ''u'' 12) ''u''
          = filter (\<lambda>t. \<not> t \<le> 12 - real_of_int (window_size ?L)) (history_of ?L ''u'')"
    and o: "user_history (cleanup_window ?L ''u'' 12) ''v'' = user_history ?L ''v''"
    by blast+
  then have f: "history_of (cleanup_window ?L ''u'' 12) ''u'' = [5, 12]"
    by (simp add: h)
  from o have o': "user_history (cleanup_window ?L ''u'' 12) ''v'' = None" by simp
  show ?thesis
    by (rule conjI [OF s conjI [OF f conjI [OF n o']]])
qed

subsection \<open>C7: the value of \<^verbatim>\<open>time_until_next_allowed\<close>\<close>

text \<open>
  C7. \<^verbatim>\<open>time_until_next_allowed\<close> returns 0 when, after the cleanup at the call's reading
  of the clock, the key is absent or has fewer than \<^verbatim>\<open>max_requests\<close> times; otherwise it
  returns \<open>max 0 (oldest + window_size - now)\<close>, where \<open>oldest\<close> is the first entry of
  the key's sequence. The result is never negative (and never an exception). A key that
  is present after the cleanup has a non-empty sequence, and when the sequence is in
  non-decreasing order its first entry is its smallest.
\<close>

theorem time_until_next_allowed_value:
  "fst (time_until_next_allowed L k clk) =
     (if user_history (cleanup_window L k (shd clk)) k = None
         \<or> int (length (history_of (cleanup_window L k (shd clk)) k)) < max_requests L
      then Inr 0
      else Inr (max 0 (hd (history_of (cleanup_window L k (shd clk)) k)
                       + real_of_int (window_size L) - shd clk)))
   \<and> (\<exists>r. fst (time_until_next_allowed L k clk) = Inr r \<and> 0 \<le> r)
   \<and> (user_history (cleanup_window L k (shd clk)) k \<noteq> None
        \<longrightarrow> history_of (cleanup_window L k (shd clk)) k \<noteq> []
            \<and> (sorted (history_of L k)
                 \<longrightarrow> hd (history_of (cleanup_window L k (shd clk)) k)
                      = Min (set (history_of (cleanup_window L k (shd clk)) k))))"
proof -
  let ?L1 = "cleanup_window L k (shd clk)"
  have ne: "user_history ?L1 k \<noteq> Some []" by (rule cleanup_window_not_empty)
  have v: "fst (time_until_next_allowed L k clk) =
     (if user_history ?L1 k = None \<or> int (length (history_of ?L1 k)) < max_requests L
      then Inr 0
      else Inr (max 0 (hd (history_of ?L1 k) + real_of_int (window_size L) - shd clk)))"
    using ne
    by (simp add: time_until_next_allowed_def time_time_def Let_def history_of_def
        split: option.splits list.splits)
  have p: "\<exists>r. fst (time_until_next_allowed L k clk) = Inr r \<and> 0 \<le> r"
    unfolding v by simp
  have m: "user_history ?L1 k \<noteq> None
        \<longrightarrow> history_of ?L1 k \<noteq> []
            \<and> (sorted (history_of L k) \<longrightarrow> hd (history_of ?L1 k) = Min (set (history_of ?L1 k)))"
  proof (intro impI conjI)
    assume pr: "user_history ?L1 k \<noteq> None"
    with ne show n: "history_of ?L1 k \<noteq> []"
      by (auto simp: history_of_def split: option.splits)
    assume "sorted (history_of L k)"
    then have "sorted (history_of ?L1 k)"
      unfolding history_of_cleanup_window by (rule popleft_while_sorted_pres)
    then show "hd (history_of ?L1 k) = Min (set (history_of ?L1 k))"
      using n by (rule hd_sorted_Min)
  qed
  from v p m show ?thesis by blast
qed

theorem time_until_next_allowed_value_witness:
  "user_history (cleanup_window
       \<lparr>window_size = 10, max_requests = 2, user_history = [''u'' \<mapsto> [0, 3, 4]]\<rparr> ''u'' 11) ''u''
      \<noteq> None
   \<and> sorted (history_of \<lparr>window_size = 10, max_requests = 2, user_history = [''u'' \<mapsto> [0, 3, 4]]\<rparr> ''u'')
   \<and> fst (time_until_next_allowed
         \<lparr>window_size = 10, max_requests = 2, user_history = [''u'' \<mapsto> [0, 3, 4]]\<rparr> ''u''
         (sconst 11)) = Inr 2
   \<and> Min (set (history_of (cleanup_window
         \<lparr>window_size = 10, max_requests = 2, user_history = [''u'' \<mapsto> [0, 3, 4]]\<rparr> ''u'' 11) ''u''))
      = 3"
proof -
  let ?L = "\<lparr>window_size = 10, max_requests = 2, user_history = [''u'' \<mapsto> [0::real, 3, 4]]\<rparr>"
  have h: "history_of (cleanup_window ?L ''u'' 11) ''u'' = [3, 4]"
    by (simp add: history_of_cleanup_window) (simp add: history_of_def)
  have pr: "user_history (cleanup_window ?L ''u'' 11) ''u'' \<noteq> None"
    by (simp add: cleanup_window_key)
  have so: "sorted (history_of ?L ''u'')" by (simp add: history_of_def)
  note inst = time_until_next_allowed_value [of ?L "''u''" "sconst 11"]
  from inst pr h have v: "fst (time_until_next_allowed ?L ''u'' (sconst 11)) = Inr 2"
    by simp
  from inst pr so have "hd (history_of (cleanup_window ?L ''u'' 11) ''u'')
      = Min (set (history_of (cleanup_window ?L ''u'' 11) ''u''))"
    by simp
  then have m: "Min (set (history_of (cleanup_window ?L ''u'' 11) ''u'')) = 3"
    by (simp only: h list.sel)
  show ?thesis
    by (rule conjI [OF pr conjI [OF so conjI [OF v m]]])
qed

subsection \<open>C8: scenario A\<close>

text \<open>
  C8. With window 10 and quota 1, for the key \<open>u\<close>: record at time 0 returns true;
  record at time 5 returns false (and changes nothing); \<^verbatim>\<open>time_until_next_allowed\<close> at
  time 5 returns 5; record at time 10 returns true, the entry 0 being purged at the
  boundary \<open>0 \<le> 10 - 10\<close>. Every call reads the clock once, record twice; the clock
  below gives each call the time of the scenario at every reading.
\<close>

theorem scenario_A:
  "(let L0 = projr (SlidingWindowRateLimiter 10 1);
        clk0 = 0 ## 0 ## 5 ## 5 ## 5 ## 10 ## 10 ## sconst 10;
        (r1, L1, clk1) = record_message L0 ''u'' clk0;
        (r2, L2, clk2) = record_message L1 ''u'' clk1;
        (w, L3, clk3) = time_until_next_allowed L2 ''u'' clk2;
        (r3, L4, clk4) = record_message L3 ''u'' clk3
    in r1 = True \<and> r2 = False \<and> w = Inr 5 \<and> r3 = True
       \<and> user_history L1 ''u'' = Some [0] \<and> L2 = L1 \<and> L3 = L1
       \<and> user_history L4 ''u'' = Some [10])"
  by (simp add: SlidingWindowRateLimiter_def record_message_def can_send_message_def
      time_until_next_allowed_def time_time_def cleanup_window_def history_of_def Let_def)

subsection \<open>C9: keys whose times have all aged out\<close>

text \<open>
  C9 (as stated, refuted). The claim: when all recorded times of a key are
  \<open>\<le> now - window_size\<close>, any operation on that key at \<open>now\<close> leaves the key absent. Record
  is such an operation: with window 10, quota 1 and the history \<open>[0]\<close> of the key, record
  at time 20 purges the entry, admits the request and stores the key again with \<open>[20]\<close>.
\<close>

theorem record_recreates_key_counterexample:
  "history_of \<lparr>window_size = 10, max_requests = 1, user_history = [''u'' \<mapsto> [0]]\<rparr> ''u'' = [0]
   \<and> (0::real) \<le> 20 - real_of_int (window_size
          \<lparr>window_size = 10, max_requests = 1, user_history = [''u'' \<mapsto> [0]]\<rparr>)
   \<and> fst (record_message \<lparr>window_size = 10, max_requests = 1, user_history = [''u'' \<mapsto> [0]]\<rparr>
          ''u'' (20 ## 20 ## sconst 21)) = True
   \<and> user_history (fst (snd (record_message
          \<lparr>window_size = 10, max_requests = 1, user_history = [''u'' \<mapsto> [0]]\<rparr>
          ''u'' (20 ## 20 ## sconst 21)))) ''u'' = Some [20]"
  by (simp add: record_message_unfold cleanup_window_def history_of_def)

text \<open>
  C9 (amended). No public operation makes a key map to an empty sequence: a key that does
  not map to an empty sequence before a call does not map to one after it. When all
  recorded times of a key are \<open>\<le> now - window_size\<close>, the cleanup at \<open>now\<close> removes the key;
  \<^verbatim>\<open>can_send_message\<close> and \<^verbatim>\<open>time_until_next_allowed\<close> at \<open>now\<close> leave it absent; record
  at \<open>now\<close> leaves it absent when it refuses (\<^verbatim>\<open>max_requests\<close> \<open>\<le> 0\<close>) and otherwise stores
  the key again with the single time it appends.
\<close>

theorem aged_out_key:
  "(user_history L k' \<noteq> Some [] \<longrightarrow> user_history (fst (run_call c (L, clk))) k' \<noteq> Some [])
   \<and> ((\<forall>t \<in> set (history_of L k). t \<le> now - real_of_int (window_size L)) \<longrightarrow>
        user_history (cleanup_window L k now) k = None
      \<and> user_history (fst (snd (can_send_message L k (now ## clk)))) k = None
      \<and> user_history (fst (snd (time_until_next_allowed L k (now ## clk)))) k = None
      \<and> user_history (fst (snd (record_message L k (t1 ## now ## clk)))) k
          = (if 0 < max_requests L then Some [t1] else None))"
proof (intro conjI impI)
  assume "user_history L k' \<noteq> Some []"
  then show "user_history (fst (run_call c (L, clk))) k' \<noteq> Some []"
    by (rule no_empty_run_call)
next
  assume "\<forall>t \<in> set (history_of L k). t \<le> now - real_of_int (window_size L)"
  then have "popleft_while (now - real_of_int (window_size L)) (history_of L k) = []"
    by (rule popleft_while_all_expired)
  then have e: "history_of (cleanup_window L k now) k = []"
    by (simp add: history_of_cleanup_window)
  with cleanup_window_not_empty [of L k now]
  show n: "user_history (cleanup_window L k now) k = None"
    by (auto simp: history_of_def split: option.splits)
  then show "user_history (fst (snd (can_send_message L k (now ## clk)))) k = None"
    by (simp add: can_send_message_unfold)
  from n show "user_history (fst (snd (time_until_next_allowed L k (now ## clk)))) k = None"
    by (simp add: time_until_next_allowed_state)
  from n e show "user_history (fst (snd (record_message L k (t1 ## now ## clk)))) k
          = (if 0 < max_requests L then Some [t1] else None)"
    by (simp add: record_message_unfold)
qed

theorem aged_out_key_witness:
  "user_history \<lparr>window_size = 10, max_requests = 1, user_history = [''u'' \<mapsto> [0]]\<rparr> ''u''
      \<noteq> Some []
   \<and> user_history (fst (run_call (Record ''u'')
          (\<lparr>window_size = 10, max_requests = 1, user_history = [''u'' \<mapsto> [0]]\<rparr>, sconst 5))) ''u''
      \<noteq> Some []
   \<and> history_of \<lparr>window_size = 10, max_requests = 1, user_history = [''u'' \<mapsto> [0]]\<rparr> ''u'' = [0]
   \<and> (0::real) \<le> 20 - real_of_int (window_size
          \<lparr>window_size = 10, max_requests = 1, user_history = [''u'' \<mapsto> [0]]\<rparr>)
   \<and> user_history (fst (snd (can_send_message
          \<lparr>window_size = 10, max_requests = 1, user_history = [''u'' \<mapsto> [0]]\<rparr> ''u''
          (20 ## sconst 21)))) ''u'' = None
   \<and> user_history (fst (snd (time_until_next_allowed
          \<lparr>window_size = 10, max_requests = 1, user_history = [''u'' \<mapsto> [0]]\<rparr> ''u''
          (20 ## sconst 21)))) ''u'' = None
   \<and> user_history (fst (snd (record_message
          \<lparr>window_size = 10, max_requests = 1, user_history = [''u'' \<mapsto> [0]]\<rparr> ''u''
          (20 ## 20 ## sconst 21)))) ''u'' = Some [20]"
proof -
  let ?L = "\<lparr>window_size = 10, max_requests = 1, user_history = [''u'' \<mapsto> [0::real]]\<rparr>"
  have n: "user_history ?L ''u'' \<noteq> Some []" by simp
  have h: "history_of ?L ''u'' = [0]" by (simp add: history_of_def)
  have z: "(0::real) \<le> 20 - real_of_int (window_size ?L)" by simp
  from h z have a: "\<forall>t \<in> set (history_of ?L ''u''). t \<le> 20 - real_of_int (window_size ?L)"
    by simp
  from aged_out_key [where L = ?L and k' = "''u''" and c = "Record ''u''" and clk = "sconst 5"] n
  have 1: "user_history (fst (run_call (Record ''u'') (?L, sconst 5))) ''u'' \<noteq> Some []"
    by blast
  from aged_out_key [where L = ?L and k = "''u''" and now = 20 and clk = "sconst 21" and ?t1.0 = 20] a
  have 2: "user_history (fst (snd (can_send_message ?L ''u'' (20 ## sconst 21)))) ''u'' = None"
    and 3: "user_history (fst (snd (time_until_next_allowed ?L ''u'' (20 ## sconst 21)))) ''u''
        = None"
    and 4: "user_history (fst (snd (record_message ?L ''u'' (20 ## 20 ## sconst 21)))) ''u''
        = Some [20]"
    by simp_all
  show ?thesis
    by (rule conjI [OF n conjI [OF 1 conjI [OF h conjI [OF z conjI [OF 2 conjI [OF 3 4]]]]]])
qed

subsection \<open>C10: the read of the oldest entry is in bounds\<close>

text \<open>
  C10. \<^verbatim>\<open>time_until_next_allowed\<close> never raises: from every state it returns a number. The
  read of the first entry of the key's deque happens after the cleanup, and after the
  cleanup the key does not map to an empty deque. Moreover, in every state that a
  constructed limiter reaches through its public methods, no key maps to an empty deque.
\<close>

theorem time_until_next_allowed_total:
  "(\<exists>r. fst (time_until_next_allowed L k clk) = Inr r)
   \<and> user_history (cleanup_window L k (shd clk)) k \<noteq> Some []
   \<and> (SlidingWindowRateLimiter ws mr = Inr L0 \<and> run cs (L0, clk0) = (L, clk)
        \<longrightarrow> user_history L k' \<noteq> Some [])"
proof (intro conjI impI)
  have ne: "user_history (cleanup_window L k (shd clk)) k \<noteq> Some []"
    by (rule cleanup_window_not_empty)
  then show "\<exists>r. fst (time_until_next_allowed L k clk) = Inr r"
    by (simp add: time_until_next_allowed_def time_time_def Let_def
        split: option.splits list.splits)
  from ne show "user_history (cleanup_window L k (shd clk)) k \<noteq> Some []" .
next
  assume "SlidingWindowRateLimiter ws mr = Inr L0 \<and> run cs (L0, clk0) = (L, clk)"
  then have "key_ok L k'" using key_ok_reachable by blast
  then show "user_history L k' \<noteq> Some []"
    by (auto simp: key_ok_def)
qed

theorem time_until_next_allowed_total_witness:
  "SlidingWindowRateLimiter 10 1
     = Inr \<lparr>window_size = 10, max_requests = 1, user_history = Map.empty\<rparr>
   \<and> run [Record ''u'']
         (\<lparr>window_size = 10, max_requests = 1, user_history = Map.empty\<rparr>, 0 ## 0 ## sconst 5)
     = (\<lparr>window_size = 10, max_requests = 1, user_history = [''u'' \<mapsto> [0]]\<rparr>, sconst 5)
   \<and> user_history \<lparr>window_size = 10, max_requests = 1, user_history = [''u'' \<mapsto> [0]]\<rparr> ''u''
      \<noteq> Some []
   \<and> fst (time_until_next_allowed
          \<lparr>window_size = 10, max_requests = 1, user_history = [''u'' \<mapsto> [0]]\<rparr> ''u'' (sconst 5))
      = Inr 5"
proof -
  let ?I = "\<lparr>window_size = 10, max_requests = 1, user_history = Map.empty\<rparr>"
  let ?L = "\<lparr>window_size = 10, max_requests = 1, user_history = [''u'' \<mapsto> [0::real]]\<rparr>"
  have i: "SlidingWindowRateLimiter 10 1 = Inr ?I" by (simp add: SlidingWindowRateLimiter_def)
  have r: "run [Record ''u''] (?I, 0 ## 0 ## sconst 5) = (?L, sconst 5)"
    by (simp add: record_message_unfold cleanup_window_def history_of_def)
  from time_until_next_allowed_total [where L = ?L and k = "''u''" and clk = "sconst 5"
      and ws = 10 and mr = 1 and ?L0.0 = ?I and cs = "[Record ''u'']"
      and ?clk0.0 = "0 ## 0 ## sconst 5" and k' = "''u''"] i r
  have n: "user_history ?L ''u'' \<noteq> Some []"
    and "\<exists>r. fst (time_until_next_allowed ?L ''u'' (sconst 5)) = Inr r"
    by blast+
  have v: "fst (time_until_next_allowed ?L ''u'' (sconst 5)) = Inr 5"
    by (simp add: time_until_next_allowed_def time_time_def cleanup_window_def)
  show ?thesis
    by (rule conjI [OF i conjI [OF r conjI [OF n v]]])
qed

end
